theory Spec2Isabelle
  imports Main
begin

section \<open>Producers, generator frames and the iteration engine\<close>

text \<open>
  A producer is a zero-argument Python callable that either returns a value or raises
  \<^verbatim>\<open>StopIteration\<close>. Whatever it captures (an iterator, a counter) is the state \<open>'s\<close>,
  passed explicitly. A call that never returns is the value \<open>None\<close> of the outer option.
  Exceptions other than \<^verbatim>\<open>StopIteration\<close> are not part of this model.
\<close>

datatype 'a signal = Yield 'a | StopIteration

type_synonym ('s, 'a) producer = "'s \<Rightarrow> ('a signal \<times> 's) option"

text \<open>\<^verbatim>\<open>class LazyStream\<close>: the single attribute \<^verbatim>\<open>_generator\<close>.\<close>

record ('s, 'a) LazyStream =
  generator :: "('s, 'a) producer"

text \<open>
  A Python generator object is either suspended, holding its local variables, or closed.
  A closed generator raises \<^verbatim>\<open>StopIteration\<close> on \<^verbatim>\<open>next\<close> without running any code.
  A generator that was created and not yet started is the suspended frame with the initial
  values of its locals: calling a generator function runs none of its body.
\<close>

datatype 'l gen_frame = Suspended 'l | Closed

text \<open>
  \<^verbatim>\<open>__safe_iter(limit)\<close>: the local is the counter \<^verbatim>\<open>i\<close>. One \<^verbatim>\<open>next\<close> on the generator
  tests the loop condition, increments \<^verbatim>\<open>i\<close>, calls the producer and yields its value;
  \<^verbatim>\<open>StopIteration\<close> from the producer is caught and ends the generator.
\<close>

definition safe_iter_new :: "int gen_frame" where
  "safe_iter_new = Suspended 0"

definition safe_iter_next ::
  "int option \<Rightarrow> ('s, 'a) LazyStream \<Rightarrow> int gen_frame \<Rightarrow> 's \<Rightarrow> ('a signal \<times> int gen_frame \<times> 's) option" where
  "safe_iter_next limit self fr s =
     (case fr of
        Closed \<Rightarrow> Some (StopIteration, Closed, s)
      | Suspended i \<Rightarrow>
          if (case limit of None \<Rightarrow> True | Some l \<Rightarrow> i < l) then
            (case generator self s of
               None \<Rightarrow> None
             | Some (Yield v, s') \<Rightarrow> Some (Yield v, Suspended (i + 1), s')
             | Some (StopIteration, s') \<Rightarrow> Some (StopIteration, Closed, s'))
          else Some (StopIteration, Closed, s))"

text \<open>\<^verbatim>\<open>__safe_next\<close>: \<^verbatim>\<open>next(self.__safe_iter())\<close>, a fresh generator pulled once and dropped.\<close>

definition safe_next :: "('s, 'a) LazyStream \<Rightarrow> ('s, 'a) producer" where
  "safe_next self s =
     (case safe_iter_next None self safe_iter_new s of
        None \<Rightarrow> None
      | Some (r, fr, s') \<Rightarrow> Some (r, s'))"

text \<open>\<^verbatim>\<open>__next__\<close>.\<close>

definition next_value :: "('s, 'a) LazyStream \<Rightarrow> ('s, 'a) producer" where
  "next_value self = safe_next self"

text \<open>\<^verbatim>\<open>from_lambda\<close> and \<^verbatim>\<open>from_iterator\<close>; an iterator is given by its \<^verbatim>\<open>next\<close>.\<close>

definition from_lambda :: "('s, 'a) producer \<Rightarrow> ('s, 'a) LazyStream" where
  "from_lambda func = \<lparr>generator = func\<rparr>"

definition from_iterator :: "('s, 'a) producer \<Rightarrow> ('s, 'a) LazyStream" where
  "from_iterator iterator = \<lparr>generator = (\<lambda>s. iterator s)\<rparr>"

text \<open>
  \<^verbatim>\<open>evaluate(limit)\<close>: the \<^verbatim>\<open>for\<close> loop over \<^verbatim>\<open>__safe_iter(limit)\<close>. With no limit and a
  producer that never exhausts the loop does not end, hence the partial function.
\<close>

partial_function (option) evaluate_loop ::
  "int option \<Rightarrow> ('s, 'a) LazyStream \<Rightarrow> 'a list \<Rightarrow> int gen_frame \<Rightarrow> 's \<Rightarrow> ('a list \<times> 's) option" where
  "evaluate_loop limit self output fr s =
     (case safe_iter_next limit self fr s of
        None \<Rightarrow> None
      | Some (Yield v, fr', s') \<Rightarrow> evaluate_loop limit self (output @ [v]) fr' s'
      | Some (StopIteration, fr', s') \<Rightarrow> Some (output, s'))"

definition evaluate :: "int option \<Rightarrow> ('s, 'a) LazyStream \<Rightarrow> 's \<Rightarrow> ('a list \<times> 's) option" where
  "evaluate limit self s = evaluate_loop limit self [] safe_iter_new s"

section \<open>Composition operators\<close>

text \<open>
  A method that builds a stream is a function of the state as well: it returns the new stream
  together with the state that now also holds the generator objects the call created.
  \<^verbatim>\<open>map\<close> creates none: its producer is \<^verbatim>\<open>lambda: func(self.__safe_next())\<close>.
\<close>

definition map_producer :: "('a \<Rightarrow> 'b) \<Rightarrow> ('s, 'a) LazyStream \<Rightarrow> ('s, 'b) producer" where
  "map_producer func self s =
     (case safe_next self s of
        None \<Rightarrow> None
      | Some (Yield v, s') \<Rightarrow> Some (Yield (func v), s')
      | Some (StopIteration, s') \<Rightarrow> Some (StopIteration, s'))"

definition map_stream :: "('a \<Rightarrow> 'b) \<Rightarrow> ('s, 'a) LazyStream \<Rightarrow> 's \<Rightarrow> ('s, 'b) LazyStream \<times> 's" where
  "map_stream func self s = (\<lparr>generator = map_producer func self\<rparr>, s)"

text \<open>
  \<^verbatim>\<open>map_enumerate\<close>: the generator \<^verbatim>\<open>iterator()\<close> holds the \<^verbatim>\<open>enumerate\<close> object, that is
  its running count and the \<^verbatim>\<open>__safe_iter()\<close> generator it wraps.
\<close>

definition map_enumerate_next ::
  "(int \<Rightarrow> 'a \<Rightarrow> 'b) \<Rightarrow> ('s, 'a) LazyStream \<Rightarrow> ((int \<times> int gen_frame) gen_frame \<times> 's, 'b) producer" where
  "map_enumerate_next func self = (\<lambda>(fr, s).
     case fr of
       Closed \<Rightarrow> Some (StopIteration, (Closed, s))
     | Suspended (count, it) \<Rightarrow>
         (case safe_iter_next None self it s of
            None \<Rightarrow> None
          | Some (Yield v, it', s') \<Rightarrow> Some (Yield (func count v), (Suspended (count + 1, it'), s'))
          | Some (StopIteration, it', s') \<Rightarrow> Some (StopIteration, (Closed, s'))))"

definition map_enumerate ::
  "(int \<Rightarrow> 'a \<Rightarrow> 'b) \<Rightarrow> ('s, 'a) LazyStream \<Rightarrow> 's \<Rightarrow>
     (((int \<times> int gen_frame) gen_frame \<times> 's, 'b) LazyStream \<times> ((int \<times> int gen_frame) gen_frame \<times> 's))" where
  "map_enumerate func self s =
     (from_iterator (map_enumerate_next func self), (Suspended (0, safe_iter_new), s))"

text \<open>
  \<^verbatim>\<open>filter\<close>: the generator \<^verbatim>\<open>iterator()\<close> holds the \<^verbatim>\<open>__safe_iter()\<close> generator of its
  \<^verbatim>\<open>for\<close> loop. One \<^verbatim>\<open>next\<close> runs the loop up to the next matching value; over a source
  that never matches and never exhausts it does not return.
\<close>

partial_function (option) filter_iterator ::
  "('a \<Rightarrow> bool) \<Rightarrow> ('s, 'a) LazyStream \<Rightarrow> int gen_frame \<Rightarrow> 's \<Rightarrow>
     ('a signal \<times> (int gen_frame gen_frame \<times> 's)) option" where
  "filter_iterator predicate self it s =
     (case safe_iter_next None self it s of
        None \<Rightarrow> None
      | Some (Yield v, it', s') \<Rightarrow>
          if predicate v then Some (Yield v, (Suspended it', s'))
          else filter_iterator predicate self it' s'
      | Some (StopIteration, it', s') \<Rightarrow> Some (StopIteration, (Closed, s')))"

definition filter_next ::
  "('a \<Rightarrow> bool) \<Rightarrow> ('s, 'a) LazyStream \<Rightarrow> (int gen_frame gen_frame \<times> 's, 'a) producer" where
  "filter_next predicate self = (\<lambda>(fr, s).
     case fr of
       Closed \<Rightarrow> Some (StopIteration, (Closed, s))
     | Suspended it \<Rightarrow> filter_iterator predicate self it s)"

definition filter_stream ::
  "('a \<Rightarrow> bool) \<Rightarrow> ('s, 'a) LazyStream \<Rightarrow> 's \<Rightarrow>
     ((int gen_frame gen_frame \<times> 's, 'a) LazyStream \<times> (int gen_frame gen_frame \<times> 's))" where
  "filter_stream predicate self s =
     (from_iterator (filter_next predicate self), (Suspended safe_iter_new, s))"

text \<open>
  \<^verbatim>\<open>for_each\<close>: \<^verbatim>\<open>func\<close> is called for its effect, which is a change of the state.
\<close>

definition for_each_next ::
  "('a \<Rightarrow> 's \<Rightarrow> 's) \<Rightarrow> ('s, 'a) LazyStream \<Rightarrow> (int gen_frame gen_frame \<times> 's, 'a) producer" where
  "for_each_next func self = (\<lambda>(fr, s).
     case fr of
       Closed \<Rightarrow> Some (StopIteration, (Closed, s))
     | Suspended it \<Rightarrow>
         (case safe_iter_next None self it s of
            None \<Rightarrow> None
          | Some (Yield v, it', s') \<Rightarrow> Some (Yield v, (Suspended it', func v s'))
          | Some (StopIteration, it', s') \<Rightarrow> Some (StopIteration, (Closed, s'))))"

definition for_each ::
  "('a \<Rightarrow> 's \<Rightarrow> 's) \<Rightarrow> ('s, 'a) LazyStream \<Rightarrow> 's \<Rightarrow>
     ((int gen_frame gen_frame \<times> 's, 'a) LazyStream \<times> (int gen_frame gen_frame \<times> 's))" where
  "for_each func self s =
     (from_iterator (for_each_next func self), (Suspended safe_iter_new, s))"

text \<open>
  \<^verbatim>\<open>zip\<close>: Python's built-in \<^verbatim>\<open>zip\<close> object over the two \<^verbatim>\<open>__safe_iter()\<close> generators.
  Its \<^verbatim>\<open>next\<close> asks the first iterator, then the second, and stops at the first of them
  that raises \<^verbatim>\<open>StopIteration\<close>; a value already taken from the first is dropped then.
  The \<^verbatim>\<open>zip\<close> object keeps no note that it has stopped: a later \<^verbatim>\<open>next\<close> asks the first
  iterator again. Both streams live in the same state, which they may share.
\<close>

definition zip_next ::
  "('s, 'a) LazyStream \<Rightarrow> ('s, 'b) LazyStream \<Rightarrow> ((int gen_frame \<times> int gen_frame) \<times> 's, 'a \<times> 'b) producer" where
  "zip_next self other = (\<lambda>((it1, it2), s).
     case safe_iter_next None self it1 s of
       None \<Rightarrow> None
     | Some (StopIteration, it1', s1) \<Rightarrow> Some (StopIteration, ((it1', it2), s1))
     | Some (Yield a, it1', s1) \<Rightarrow>
         (case safe_iter_next None other it2 s1 of
            None \<Rightarrow> None
          | Some (StopIteration, it2', s2) \<Rightarrow> Some (StopIteration, ((it1', it2'), s2))
          | Some (Yield b, it2', s2) \<Rightarrow> Some (Yield (a, b), ((it1', it2'), s2))))"

definition zip_stream ::
  "('s, 'a) LazyStream \<Rightarrow> ('s, 'b) LazyStream \<Rightarrow> 's \<Rightarrow>
     (((int gen_frame \<times> int gen_frame) \<times> 's, 'a \<times> 'b) LazyStream \<times> ((int gen_frame \<times> int gen_frame) \<times> 's))" where
  "zip_stream self other s =
     (from_iterator (zip_next self other), ((safe_iter_new, safe_iter_new), s))"

section \<open>Reduce\<close>










section \<open>Parallel evaluation\<close>

text \<open>
  The executor is not part of the library. It is modelled by the order in which it runs the
  invocations it was given, each identified by its submission index and run as one step;
  \<open>pool_run\<close> records what each invocation obtained. A handle whose invocation never ran
  blocks \<^verbatim>\<open>result()\<close> for ever.
\<close>

type_synonym executor = "nat \<Rightarrow> nat list"

fun pool_run :: "('s, 'a) producer \<Rightarrow> nat list \<Rightarrow> (nat \<rightharpoonup> 'a signal) \<Rightarrow> 's \<Rightarrow> ((nat \<rightharpoonup> 'a signal) \<times> 's) option" where
  "pool_run g [] res s = Some (res, s)"
| "pool_run g (j # js) res s =
     (case g s of None \<Rightarrow> None | Some (r, s') \<Rightarrow> pool_run g js (res(j \<mapsto> r)) s')"

fun collect :: "(nat \<rightharpoonup> 'a signal) \<Rightarrow> nat list \<Rightarrow> 'a list \<Rightarrow> 'a list option" where
  "collect res [] output = Some output"
| "collect res (future # futures) output =
     (case res future of
        None \<Rightarrow> None
      | Some (Yield v) \<Rightarrow> collect res futures (output @ [v])
      | Some StopIteration \<Rightarrow> Some output)"

definition par_evaluate :: "int \<Rightarrow> executor \<Rightarrow> ('s, 'a) LazyStream \<Rightarrow> 's \<Rightarrow> ('a list \<times> 's) option" where
  "par_evaluate limit executor self s =
     (let futures = [0..<nat limit] in
      case pool_run (generator self) (executor (length futures)) Map.empty s of
        None \<Rightarrow> None
      | Some (res, s') \<Rightarrow>
          (case collect res futures [] of None \<Rightarrow> None | Some output \<Rightarrow> Some (output, s')))"

text \<open>An executor that runs the invocations one after another in submission order.\<close>

definition in_order :: executor where
  "in_order n = [0..<n]"

text \<open>An executor with two workers where the second invocation reaches the producer first.\<close>

definition second_first :: executor where
  "second_first n = (if 2 \<le> n then [1, 0] @ [2..<n] else [0..<n])"

section \<open>Sources and instrumentation\<close>

text \<open>\<^verbatim>\<open>next\<close> of a Python list iterator: the state is the list of elements not yet pulled.\<close>

definition list_next :: "('a list, 'a) producer" where
  "list_next xs = (case xs of [] \<Rightarrow> Some (StopIteration, []) | x # rest \<Rightarrow> Some (Yield x, rest))"


text \<open>A producer wrapped so that every invocation is counted.\<close>

definition counted :: "('s, 'a) producer \<Rightarrow> ('s \<times> nat, 'a) producer" where
  "counted g = (\<lambda>(s, n). case g s of None \<Rightarrow> None | Some (r, s') \<Rightarrow> Some (r, (s', Suc n)))"

text \<open>
  Two producers with separate states and a common log of the order in which they are invoked.
\<close>

datatype side = Self | Other

record ('s1, 's2) pair_world =
  self_state :: 's1
  other_state :: 's2
  pull_log :: "side list"

definition on_self :: "('s1, 'a) producer \<Rightarrow> (('s1, 's2) pair_world, 'a) producer" where
  "on_self g w =
     (case g (self_state w) of
        None \<Rightarrow> None
      | Some (r, s') \<Rightarrow> Some (r, w\<lparr>self_state := s', pull_log := pull_log w @ [Self]\<rparr>))"

definition on_other :: "('s2, 'b) producer \<Rightarrow> (('s1, 's2) pair_world, 'b) producer" where
  "on_other g w =
     (case g (other_state w) of
        None \<Rightarrow> None
      | Some (r, s') \<Rightarrow> Some (r, w\<lparr>other_state := s', pull_log := pull_log w @ [Other]\<rparr>))"

text \<open>\<open>pull_times n g s\<close>: the producer invoked \<open>n\<close> times in a row, with what each call gave.\<close>

fun pull_times :: "nat \<Rightarrow> ('s, 'a) producer \<Rightarrow> 's \<Rightarrow> ('a signal list \<times> 's) option" where
  "pull_times 0 g s = Some ([], s)"
| "pull_times (Suc n) g s =
     (case g s of
        None \<Rightarrow> None
      | Some (r, s') \<Rightarrow>
          (case pull_times n g s' of None \<Rightarrow> None | Some (rs, s'') \<Rightarrow> Some (r # rs, s'')))"

text \<open>
  \<open>finite_source g s xs s'\<close>: started in state \<open>s\<close>, the producer \<open>g\<close> yields exactly the
  elements \<open>xs\<close> and then signals exhaustion, which leaves it in state \<open>s'\<close>.
\<close>

inductive finite_source :: "('s, 'a) producer \<Rightarrow> 's \<Rightarrow> 'a list \<Rightarrow> 's \<Rightarrow> bool" where
  exhausted: "g s = Some (StopIteration, s') \<Longrightarrow> finite_source g s [] s'"
| yields: "g s = Some (Yield v, s1) \<Longrightarrow> finite_source g s1 xs s' \<Longrightarrow> finite_source g s (v # xs) s'"

code_pred finite_source .

section \<open>Basic facts\<close>

lemma finite_source_list_next: "finite_source list_next xs xs []"
  by (induction xs) (auto intro: finite_source.intros simp: list_next_def)

lemma evaluate_loop_unbounded:
  "finite_source (generator self) s xs s_end \<Longrightarrow>
   evaluate_loop None self out (Suspended i) s = Some (out @ xs, s_end)"
proof (induction "generator self" s xs s_end arbitrary: out i rule: finite_source.induct)
  case (exhausted s s')
  then show ?case
    by (subst evaluate_loop.simps) (simp add: safe_iter_next_def)
next
  case (yields s v s1 xs s')
  from yields.hyps(1) yields.hyps(3)[of "out @ [v]" "i + 1"] show ?case
    by (subst evaluate_loop.simps) (simp add: safe_iter_next_def)
qed

lemma evaluate_loop_bounded:
  "finite_source (generator self) s xs s_end \<Longrightarrow>
   \<exists>s'. evaluate_loop (Some L) self out (Suspended i) s = Some (out @ take (nat (L - i)) xs, s')
      \<and> (if nat (L - i) \<le> length xs then finite_source (generator self) s' (drop (nat (L - i)) xs) s_end
          else s' = s_end)"
proof (induction "generator self" s xs s_end arbitrary: out i rule: finite_source.induct)
  case (exhausted s s')
  show ?case
  proof (cases "i < L")
    case True
    with exhausted show ?thesis
      by (subst evaluate_loop.simps) (simp add: safe_iter_next_def)
  next
    case False
    with exhausted finite_source.exhausted[of "generator self" s s'] show ?thesis
      by (subst evaluate_loop.simps) (simp add: safe_iter_next_def)
  qed
next
  case (yields s v s1 xs s')
  show ?case
  proof (cases "i < L")
    case True
    then have n: "nat (L - i) = Suc (nat (L - (i + 1)))" by simp
    from yields.hyps(3)[of "out @ [v]" "i + 1"] obtain t where
      t: "evaluate_loop (Some L) self (out @ [v]) (Suspended (i + 1)) s1
            = Some ((out @ [v]) @ take (nat (L - (i + 1))) xs, t)"
         "if nat (L - (i + 1)) \<le> length xs
          then finite_source (generator self) t (drop (nat (L - (i + 1))) xs) s' else t = s'"
      by blast
    have "evaluate_loop (Some L) self out (Suspended i) s
            = Some (out @ take (nat (L - i)) (v # xs), t)"
      using yields.hyps(1) True t(1)
      by (subst evaluate_loop.simps) (simp add: safe_iter_next_def n)
    moreover have "if nat (L - i) \<le> length (v # xs)
          then finite_source (generator self) t (drop (nat (L - i)) (v # xs)) s' else t = s'"
      using t(2) by (simp add: n)
    ultimately show ?thesis by blast
  next
    case False
    with finite_source.yields[OF yields.hyps(1) yields.hyps(2)] show ?thesis
      by (subst evaluate_loop.simps) (simp add: safe_iter_next_def)
  qed
qed

lemma evaluate_bounded:
  "finite_source g s xs s_end \<Longrightarrow> generator self = g \<Longrightarrow>
   \<exists>s'. evaluate (Some L) self s = Some (take (nat L) xs, s')
      \<and> (if nat L \<le> length xs then finite_source g s' (drop (nat L) xs) s_end else s' = s_end)"
  using evaluate_loop_bounded[of self s xs s_end L "[]" 0]
  unfolding evaluate_def safe_iter_new_def by auto

lemma evaluate_unbounded:
  "finite_source g s xs s_end \<Longrightarrow> generator self = g \<Longrightarrow>
   evaluate None self s = Some (xs, s_end)"
  using evaluate_loop_unbounded[of self s xs s_end "[]" 0]
  by (simp add: evaluate_def safe_iter_new_def)

lemma finite_source_counted:
  "finite_source g s xs s_end \<Longrightarrow> finite_source (counted g) (s, n) xs (s_end, n + Suc (length xs))"
proof (induction g s xs s_end arbitrary: n rule: finite_source.induct)
  case (exhausted g s s')
  then have "counted g (s, n) = Some (StopIteration, (s', Suc n))"
    by (simp add: counted_def)
  then show ?case
    by (simp add: finite_source.exhausted)
next
  case (yields g s v s1 xs s')
  from yields.hyps(1) have "counted g (s, n) = Some (Yield v, (s1, Suc n))"
    by (simp add: counted_def)
  with yields.IH[of "Suc n"] show ?case
    by (simp add: finite_source.yields)
qed

lemma counted_finite_source:
  "finite_source cg sn xs en \<Longrightarrow> cg = counted g \<Longrightarrow>
   finite_source g (fst sn) xs (fst en) \<and> snd en = snd sn + Suc (length xs)"
proof (induction cg sn xs en rule: finite_source.induct)
  case (exhausted cg s s')
  then show ?case
    by (cases s; cases s') (auto simp: counted_def split: option.splits intro: finite_source.intros)
next
  case (yields cg s v s1 xs s')
  then show ?case
    by (cases s; cases s1) (auto simp: counted_def split: option.splits intro: finite_source.intros)
qed

lemma evaluate_loop_no_budget:
  "L \<le> i \<Longrightarrow> evaluate_loop (Some L) self out (Suspended i) s = Some (out, s)"
  by (subst evaluate_loop.simps) (simp add: safe_iter_next_def)

section \<open>Sequential evaluation\<close>

text \<open>
  Claim C8. For every stream, \<^verbatim>\<open>evaluate(0)\<close> returns the empty list and leaves the state as
  it was; with a producer that counts its invocations, the count is unchanged.
\<close>

theorem evaluate_zero:
  "evaluate (Some 0) self s = Some ([], s)
   \<and> evaluate (Some 0) (from_lambda (counted g)) (s0, n) = Some ([], (s0, n))"
  by (simp add: evaluate_def safe_iter_new_def evaluate_loop_no_budget)

text \<open>
  Claim C9. The single pull invokes the producer once. When the producer signals exhaustion
  the pull raises \<^verbatim>\<open>StopIteration\<close>, which is no value; when it gives a value the pull
  returns that value.
\<close>

theorem next_value_pull:
  "(g s = Some (StopIteration, s') \<longrightarrow>
      next_value (from_lambda (counted g)) (s, n) = Some (StopIteration, (s', Suc n)))
   \<and> (g s = Some (Yield v, s') \<longrightarrow>
      next_value (from_lambda (counted g)) (s, n) = Some (Yield v, (s', Suc n)))"
  by (simp add: next_value_def safe_next_def safe_iter_next_def safe_iter_new_def
      from_lambda_def counted_def)

text \<open>The single pull on an empty and on a non-empty list iterator.\<close>

theorem next_value_pull_witness:
  "list_next ([]::int list) = Some (StopIteration, [])
   \<and> next_value (from_lambda (counted list_next)) ([]::int list, 0) = Some (StopIteration, ([], 1))
   \<and> list_next [7::int, 8] = Some (Yield 7, [8])
   \<and> next_value (from_lambda (counted list_next)) ([7::int, 8], 0) = Some (Yield 7, ([8], 1))"
  using next_value_pull [where g = list_next and s = "[]::int list" and s' = "[]" and n = 0]
        next_value_pull [where g = list_next and s = "[7::int, 8]" and s' = "[8]" and n = 0 and v = 7]
  by (simp add: list_next_def)

text \<open>
  Claim C1, amended. For a finite source of \<open>N\<close> elements and a limit \<open>L\<close>: if \<open>L \<ge> N\<close> then
  \<^verbatim>\<open>evaluate(L)\<close> returns the \<open>N\<close> elements in source order; if \<open>L < N\<close> it returns the first
  \<open>L\<close> elements in order after exactly \<open>L\<close> invocations of the producer, and the source is left
  with the other \<open>N - L\<close> elements. A negative limit behaves as the limit 0.
\<close>

theorem evaluate_limit:
  assumes "finite_source g s xs s_end"
  shows "(int (length xs) \<le> L \<longrightarrow>
           (\<exists>s'. evaluate (Some L) (from_lambda (counted g)) (s, n)
                   = Some (xs, (s', n + min (nat L) (Suc (length xs))))))
       \<and> (L < int (length xs) \<longrightarrow>
           (\<exists>s'. evaluate (Some L) (from_lambda (counted g)) (s, n)
                   = Some (take (nat L) xs, (s', n + nat L))
                \<and> finite_source g s' (drop (nat L) xs) s_end
                \<and> length (drop (nat L) xs) = length xs - nat L))"
proof -
  let ?self = "from_lambda (counted g)"
  have gen: "generator ?self = counted g"
    by (simp add: from_lambda_def)
  from evaluate_bounded[OF finite_source_counted[OF assms] gen] obtain st where
    ev: "evaluate (Some L) ?self (s, n) = Some (take (nat L) xs, st)" and
    st: "if nat L \<le> length xs
         then finite_source (counted g) st (drop (nat L) xs) (s_end, n + Suc (length xs))
         else st = (s_end, n + Suc (length xs))"
    by blast
  have within: "nat L \<le> length xs \<Longrightarrow>
      finite_source g (fst st) (drop (nat L) xs) s_end \<and> snd st = n + nat L"
  proof -
    assume le: "nat L \<le> length xs"
    with st have "finite_source (counted g) st (drop (nat L) xs) (s_end, n + Suc (length xs))"
      by simp
    from counted_finite_source[OF this refl]
    have "finite_source g (fst st) (drop (nat L) xs) s_end"
      and "n + Suc (length xs) = snd st + Suc (length xs - nat L)"
      by simp_all
    with le show ?thesis
      by linarith
  qed
  show ?thesis
  proof (intro conjI impI)
    assume ge: "int (length xs) \<le> L"
    show "\<exists>s'. evaluate (Some L) ?self (s, n) = Some (xs, (s', n + min (nat L) (Suc (length xs))))"
    proof (cases "nat L \<le> length xs")
      case True
      with ge have "nat L = length xs" by simp
      with within[OF True] ev show ?thesis
        by (cases st) simp
    next
      case False
      with st ev show ?thesis by simp
    qed
  next
    assume lt: "L < int (length xs)"
    then have le: "nat L \<le> length xs" by simp
    from within[OF le] ev
    show "\<exists>s'. evaluate (Some L) ?self (s, n) = Some (take (nat L) xs, (s', n + nat L))
                \<and> finite_source g s' (drop (nat L) xs) s_end
                \<and> length (drop (nat L) xs) = length xs - nat L"
      by (cases st) simp
  qed
qed

text \<open>A list of three elements evaluated with the limits 5 and 2.\<close>

theorem evaluate_limit_witness:
  "finite_source list_next [1::int, 2, 3] [1, 2, 3] []
   \<and> (\<exists>s'. evaluate (Some 5) (from_lambda (counted list_next)) ([1::int, 2, 3], 0)
             = Some ([1, 2, 3], (s', 4)))
   \<and> (\<exists>s'. evaluate (Some 2) (from_lambda (counted list_next)) ([1::int, 2, 3], 0)
             = Some ([1, 2], (s', 2))
          \<and> finite_source list_next s' [3] [])"
  using evaluate_limit [OF finite_source_list_next, of "[1::int, 2, 3]" 5 0]
        evaluate_limit [OF finite_source_list_next, of "[1::int, 2, 3]" 2 0]
        finite_source_list_next [of "[1::int, 2, 3]"]
  by (simp add: eval_nat_numeral)

text \<open>
  Claim C1 as stated has the source left with \<open>L\<close> elements. With three elements and the
  limit 1, two elements are left.
\<close>

theorem evaluate_limit_counterexample:
  "evaluate (Some 1) (from_iterator list_next) [1::int, 2, 3] = Some ([1], [2, 3])
   \<and> length [2::int, 3] \<noteq> 1"
  by (simp add: evaluate_def safe_iter_new_def evaluate_loop.simps safe_iter_next_def
      from_iterator_def list_next_def)

section \<open>Map and filter\<close>

lemma finite_source_same_step:
  "P st = P st' \<Longrightarrow> finite_source P st xs e \<Longrightarrow> finite_source P st' xs e"
  by (subst finite_source.simps, subst (asm) finite_source.simps) simp

lemma safe_next_eq: "safe_next self s = generator self s"
  by (simp add: safe_next_def safe_iter_next_def safe_iter_new_def
      split: option.splits signal.splits prod.splits)

lemma finite_source_map:
  "finite_source g s xs s_end \<Longrightarrow> generator self = g \<Longrightarrow>
   finite_source (map_producer f self) s (map f xs) s_end"
proof (induction g s xs s_end rule: finite_source.induct)
  case (exhausted g s s')
  then have "map_producer f self s = Some (StopIteration, s')"
    by (simp add: map_producer_def safe_next_eq)
  then show ?case by (simp add: finite_source.exhausted)
next
  case (yields g s v s1 xs s')
  then have "map_producer f self s = Some (Yield (f v), s1)"
    by (simp add: map_producer_def safe_next_eq)
  with yields show ?case by (simp add: finite_source.yields)
qed

text \<open>
  Claim C6. Over a finite source, \<^verbatim>\<open>map(f)\<close> followed by \<^verbatim>\<open>evaluate()\<close> gives \<open>f\<close> applied
  to each element of what \<^verbatim>\<open>evaluate()\<close> gives on the source, and both leave the source in
  the same state. In any state where the source's producer signals exhaustion, the mapped
  producer signals exhaustion with the same resulting state.
\<close>

theorem map_evaluate:
  assumes "finite_source g s xs s_end"
  shows "evaluate None (from_lambda g) s = Some (xs, s_end)
       \<and> (case map_stream f (from_lambda g) s of (mapped, st) \<Rightarrow> evaluate None mapped st)
            = Some (map f xs, s_end)
       \<and> (case map_stream f (from_lambda g) s0 of (mapped, st) \<Rightarrow>
            (g st = Some (StopIteration, t) \<longrightarrow> generator mapped st = Some (StopIteration, t)))"
proof -
  have gen: "generator (from_lambda g) = g"
    by (simp add: from_lambda_def)
  have "finite_source (map_producer f (from_lambda g)) s (map f xs) s_end"
    using finite_source_map[OF assms gen] .
  then have "evaluate None \<lparr>generator = map_producer f (from_lambda g)\<rparr> s = Some (map f xs, s_end)"
    by (rule evaluate_unbounded) simp
  moreover have "evaluate None (from_lambda g) s = Some (xs, s_end)"
    using assms gen by (rule evaluate_unbounded)
  ultimately show ?thesis
    by (simp add: map_stream_def map_producer_def safe_next_eq gen)
qed

text \<open>The elements 0, 1, 2, 3 mapped with multiplication by ten.\<close>

theorem map_evaluate_witness:
  "finite_source list_next [0::int, 1, 2, 3] [0, 1, 2, 3] []
   \<and> evaluate None (from_lambda list_next) [0::int, 1, 2, 3] = Some ([0, 1, 2, 3], [])
   \<and> (case map_stream (\<lambda>x. x * 10) (from_lambda list_next) [0::int, 1, 2, 3] of
        (mapped, st) \<Rightarrow> evaluate None mapped st) = Some ([0, 10, 20, 30], [])
   \<and> list_next ([]::int list) = Some (StopIteration, [])
   \<and> (case map_stream (\<lambda>x. x * 10) (from_lambda list_next) ([]::int list) of
        (mapped, st) \<Rightarrow> generator mapped st) = Some (StopIteration, [])"
  using map_evaluate [OF finite_source_list_next, of "[0::int, 1, 2, 3]" "\<lambda>x. x * 10" "[]" "[]"]
        finite_source_list_next [of "[0::int, 1, 2, 3]"]
  by (simp add: list_next_def map_stream_def)

lemma finite_source_filter:
  "finite_source g s xs s_end \<Longrightarrow> generator self = g \<Longrightarrow>
   finite_source (filter_next p self) (Suspended (Suspended i), s) (filter p xs) (Closed, s_end)"
proof (induction g s xs s_end arbitrary: i rule: finite_source.induct)
  case (exhausted g s s')
  then have "filter_next p self (Suspended (Suspended i), s) = Some (StopIteration, (Closed, s'))"
    by (simp add: filter_next_def, subst filter_iterator.simps) (simp add: safe_iter_next_def)
  then show ?case by (simp add: finite_source.exhausted)
next
  case (yields g s v s1 xs s')
  show ?case
  proof (cases "p v")
    case True
    with yields.hyps(1) yields.prems
    have "filter_next p self (Suspended (Suspended i), s)
            = Some (Yield v, (Suspended (Suspended (i + 1)), s1))"
      by (simp add: filter_next_def, subst filter_iterator.simps) (simp add: safe_iter_next_def)
    with yields.IH[OF yields.prems, of "i + 1"] True show ?thesis
      by (simp add: finite_source.yields)
  next
    case False
    with yields.hyps(1) yields.prems
    have "filter_next p self (Suspended (Suspended (i + 1)), s1)
            = filter_next p self (Suspended (Suspended i), s)"
      by (simp add: filter_next_def, subst (2) filter_iterator.simps) (simp add: safe_iter_next_def)
    from finite_source_same_step[OF this yields.IH[OF yields.prems, of "i + 1"]] False
    show ?thesis by simp
  qed
qed

lemma filter_iterator_pull:
  "finite_source g s xs s_end \<Longrightarrow> generator self = g \<Longrightarrow>
   ((\<forall>x\<in>set xs. \<not> p x) \<longrightarrow>
      filter_iterator p self (Suspended i) s = Some (StopIteration, (Closed, s_end)))
   \<and> ((\<exists>x\<in>set xs. p x) \<longrightarrow>
      (\<exists>fr s'. filter_iterator p self (Suspended i) s
                 = Some (Yield (hd (dropWhile (Not \<circ> p) xs)), (fr, s'))
             \<and> finite_source g s' (tl (dropWhile (Not \<circ> p) xs)) s_end))"
proof (induction g s xs s_end arbitrary: i rule: finite_source.induct)
  case (exhausted g s s')
  then show ?case
    by (subst filter_iterator.simps) (simp add: safe_iter_next_def)
next
  case (yields g s v s1 xs s')
  show ?case
  proof (cases "p v")
    case True
    with yields.hyps(1) yields.prems
    have "filter_iterator p self (Suspended i) s = Some (Yield v, (Suspended (Suspended (i + 1)), s1))"
      by (subst filter_iterator.simps) (simp add: safe_iter_next_def)
    with True yields.hyps(2) show ?thesis by auto
  next
    case False
    with yields.hyps(1) yields.prems
    have "filter_iterator p self (Suspended i) s = filter_iterator p self (Suspended (i + 1)) s1"
      by (subst filter_iterator.simps) (simp add: safe_iter_next_def)
    with yields.IH[OF yields.prems, of "i + 1"] False show ?thesis by simp
  qed
qed

lemma length_tl_dropWhile:
  "\<exists>x\<in>set xs. p x \<Longrightarrow>
   length xs = Suc (length (takeWhile (Not \<circ> p) xs)) + length (tl (dropWhile (Not \<circ> p) xs))"
  by (induction xs) auto

text \<open>
  Claim C5. Over a finite source, \<^verbatim>\<open>filter(p)\<close> followed by \<^verbatim>\<open>evaluate()\<close> gives the elements
  of \<^verbatim>\<open>evaluate()\<close> of the source that satisfy \<open>p\<close>, in order. One pull of the filtered stream
  invokes the source's producer once for every leading element that fails \<open>p\<close> and once more:
  it yields the first element that satisfies \<open>p\<close>, or signals exhaustion when the source
  exhausts first.
\<close>

theorem filter_evaluate:
  assumes "finite_source g s xs s_end"
  shows "evaluate None (from_lambda g) s = Some (xs, s_end)
   \<and> (case filter_stream p (from_lambda g) s of (filtered, st) \<Rightarrow> evaluate None filtered st)
        = Some (filter p xs, (Closed, s_end))
   \<and> ((\<forall>x\<in>set xs. \<not> p x) \<longrightarrow>
        (case filter_stream p (from_lambda (counted g)) (s, n) of
           (filtered, st) \<Rightarrow> generator filtered st)
          = Some (StopIteration, (Closed, (s_end, n + Suc (length xs)))))
   \<and> ((\<exists>x\<in>set xs. p x) \<longrightarrow>
        (\<exists>fr s'. (case filter_stream p (from_lambda (counted g)) (s, n) of
                    (filtered, st) \<Rightarrow> generator filtered st)
                   = Some (Yield (hd (dropWhile (Not \<circ> p) xs)),
                           (fr, (s', n + Suc (length (takeWhile (Not \<circ> p) xs)))))
               \<and> finite_source g s' (tl (dropWhile (Not \<circ> p) xs)) s_end))"
proof -
  have gen: "generator (from_lambda g) = g" and cgen: "generator (from_lambda (counted g)) = counted g"
    by (simp_all add: from_lambda_def)
  have src: "evaluate None (from_lambda g) s = Some (xs, s_end)"
    using assms gen by (rule evaluate_unbounded)
  have "finite_source (filter_next p (from_lambda g)) (Suspended (Suspended 0), s) (filter p xs)
          (Closed, s_end)"
    using assms gen by (rule finite_source_filter)
  then have ev: "evaluate None (from_iterator (filter_next p (from_lambda g))) (Suspended (Suspended 0), s)
          = Some (filter p xs, (Closed, s_end))"
    by (rule evaluate_unbounded) (simp add: from_iterator_def)
  note pull = filter_iterator_pull[OF finite_source_counted[OF assms, of n] cgen, of p 0]
  have first: "(case filter_stream p (from_lambda (counted g)) (s, n) of
                  (filtered, st) \<Rightarrow> generator filtered st)
               = filter_iterator p (from_lambda (counted g)) (Suspended 0) (s, n)"
    by (simp add: filter_stream_def from_iterator_def filter_next_def safe_iter_new_def)
  have none: "(\<forall>x\<in>set xs. \<not> p x) \<longrightarrow>
        (case filter_stream p (from_lambda (counted g)) (s, n) of
           (filtered, st) \<Rightarrow> generator filtered st)
          = Some (StopIteration, (Closed, (s_end, n + Suc (length xs))))"
    using pull first by simp
  have some: "(\<exists>x\<in>set xs. p x) \<longrightarrow>
        (\<exists>fr s'. (case filter_stream p (from_lambda (counted g)) (s, n) of
                    (filtered, st) \<Rightarrow> generator filtered st)
                   = Some (Yield (hd (dropWhile (Not \<circ> p) xs)),
                           (fr, (s', n + Suc (length (takeWhile (Not \<circ> p) xs)))))
               \<and> finite_source g s' (tl (dropWhile (Not \<circ> p) xs)) s_end)"
  proof
    assume ex: "\<exists>x\<in>set xs. p x"
    with pull obtain fr st where
      st: "filter_iterator p (from_lambda (counted g)) (Suspended 0) (s, n)
             = Some (Yield (hd (dropWhile (Not \<circ> p) xs)), (fr, st))"
          "finite_source (counted g) st (tl (dropWhile (Not \<circ> p) xs)) (s_end, n + Suc (length xs))"
      by blast
    from counted_finite_source[OF st(2) refl]
    have a: "finite_source g (fst st) (tl (dropWhile (Not \<circ> p) xs)) s_end"
      and "n + Suc (length xs) = snd st + Suc (length (tl (dropWhile (Not \<circ> p) xs)))"
      by simp_all
    with length_tl_dropWhile[OF ex]
    have "snd st = n + Suc (length (takeWhile (Not \<circ> p) xs))"
      by linarith
    with a st(1) first show "\<exists>fr s'. (case filter_stream p (from_lambda (counted g)) (s, n) of
                    (filtered, st) \<Rightarrow> generator filtered st)
                   = Some (Yield (hd (dropWhile (Not \<circ> p) xs)),
                           (fr, (s', n + Suc (length (takeWhile (Not \<circ> p) xs)))))
               \<and> finite_source g s' (tl (dropWhile (Not \<circ> p) xs)) s_end"
      by (cases st) auto
  qed
  from src ev none some show ?thesis
    by (simp add: filter_stream_def safe_iter_new_def)
qed

text \<open>The elements 0, 1, 2, 3 filtered for the even ones, for the odd ones and for none.\<close>

theorem filter_evaluate_witness:
  "finite_source list_next [0::int, 1, 2, 3] [0, 1, 2, 3] []
   \<and> evaluate None (from_lambda list_next) [0::int, 1, 2, 3] = Some ([0, 1, 2, 3], [])
   \<and> (case filter_stream (\<lambda>x. x mod 2 = 0) (from_lambda list_next) [0::int, 1, 2, 3] of
        (filtered, st) \<Rightarrow> evaluate None filtered st) = Some ([0, 2], (Closed, []))
   \<and> (\<exists>fr s'. (case filter_stream (\<lambda>x. x mod 2 = 1) (from_lambda (counted list_next)) ([0::int, 1, 2, 3], 0) of
                 (filtered, st) \<Rightarrow> generator filtered st) = Some (Yield 1, (fr, (s', 2)))
            \<and> finite_source list_next s' [2, 3] [])
   \<and> (case filter_stream (\<lambda>x. 5 < x) (from_lambda (counted list_next)) ([0::int, 1, 2, 3], 0) of
        (filtered, st) \<Rightarrow> generator filtered st) = Some (StopIteration, (Closed, ([], 5)))"
  using filter_evaluate [OF finite_source_list_next, of "[0::int, 1, 2, 3]" "\<lambda>x. x mod 2 = 0" 0]
        filter_evaluate [OF finite_source_list_next, of "[0::int, 1, 2, 3]" "\<lambda>x. x mod 2 = 1" 0]
        filter_evaluate [OF finite_source_list_next, of "[0::int, 1, 2, 3]" "\<lambda>x. 5 < x" 0]
        finite_source_list_next [of "[0::int, 1, 2, 3]"]
  by (simp add: eval_nat_numeral)

section \<open>Zip\<close>

lemma safe_iter_next_unbounded:
  "safe_iter_next None self (Suspended i) s =
     (case generator self s of
        None \<Rightarrow> None
      | Some (Yield v, s') \<Rightarrow> Some (Yield v, Suspended (i + 1), s')
      | Some (StopIteration, s') \<Rightarrow> Some (StopIteration, Closed, s'))"
  by (simp add: safe_iter_next_def)

lemma finite_source_zip:
  "finite_source g1 s1 xs e1 \<Longrightarrow> finite_source g2 s2 ys e2 \<Longrightarrow>
   self_state w = s1 \<Longrightarrow> other_state w = s2 \<Longrightarrow>
   \<exists>fr w'. finite_source (zip_next (from_lambda (on_self g1)) (from_lambda (on_other g2)))
              ((Suspended i, Suspended j), w) (zip xs ys) (fr, w')
     \<and> pull_log w' = pull_log w @ concat (replicate (min (length xs) (length ys)) [Self, Other])
                        @ (if length xs \<le> length ys then [Self] else [Self, Other])
     \<and> (if length xs \<le> length ys
          then self_state w' = e1 \<and> finite_source g2 (other_state w') (drop (length xs) ys) e2
          else other_state w' = e2 \<and> finite_source g1 (self_state w') (drop (Suc (length ys)) xs) e1)"
proof (induction g1 s1 xs e1 arbitrary: s2 ys w i j rule: finite_source.induct)
  case (exhausted g1 s1 e1)
  let ?w' = "w\<lparr>self_state := e1, pull_log := pull_log w @ [Self]\<rparr>"
  from exhausted have
    "zip_next (from_lambda (on_self g1)) (from_lambda (on_other g2)) ((Suspended i, Suspended j), w)
       = Some (StopIteration, ((Closed, Suspended j), ?w'))"
    by (simp add: zip_next_def safe_iter_next_unbounded from_lambda_def on_self_def)
  then have "finite_source (zip_next (from_lambda (on_self g1)) (from_lambda (on_other g2)))
       ((Suspended i, Suspended j), w) (zip [] ys) ((Closed, Suspended j), ?w')"
    by (simp add: finite_source.exhausted)
  moreover have "pull_log ?w' = pull_log w @ concat (replicate (min (length []) (length ys)) [Self, Other])
                        @ (if length [] \<le> length ys then [Self] else [Self, Other])"
    by simp
  moreover have "self_state ?w' = e1 \<and> finite_source g2 (other_state ?w') (drop (length []) ys) e2"
    using exhausted by simp
  ultimately show ?case by (intro exI[of _ "(Closed, Suspended j)"] exI[of _ ?w']) simp
next
  case (yields g1 s1 v s1' xs e1)
  let ?w1 = "w\<lparr>self_state := s1', pull_log := pull_log w @ [Self]\<rparr>"
  let ?Z = "zip_next (from_lambda (on_self g1)) (from_lambda (on_other g2))"
  from yields.prems(1) show ?case
  proof (cases rule: finite_source.cases)
    case exhausted
    let ?w2 = "?w1\<lparr>other_state := e2, pull_log := pull_log ?w1 @ [Other]\<rparr>"
    from exhausted yields.hyps(1) yields.prems(2,3) have
      "?Z ((Suspended i, Suspended j), w) = Some (StopIteration, ((Suspended (i + 1), Closed), ?w2))"
      by (simp add: zip_next_def safe_iter_next_unbounded from_lambda_def on_self_def on_other_def)
    then have "finite_source ?Z ((Suspended i, Suspended j), w) (zip (v # xs) ys)
                 ((Suspended (i + 1), Closed), ?w2)"
      using exhausted by (simp add: finite_source.exhausted)
    moreover have "pull_log ?w2 = pull_log w @ concat (replicate (min (length (v # xs)) (length ys)) [Self, Other])
                        @ (if length (v # xs) \<le> length ys then [Self] else [Self, Other])"
      using exhausted by simp
    moreover have "other_state ?w2 = e2 \<and> finite_source g1 (self_state ?w2) (drop (Suc (length ys)) (v # xs)) e1"
      using exhausted yields.hyps(2) by simp
    ultimately show ?thesis
      using exhausted by (intro exI[of _ "(Suspended (i + 1), Closed)"] exI[of _ ?w2]) simp
  next
    case (yields u s2' ys')
    let ?w2 = "?w1\<lparr>other_state := s2', pull_log := pull_log ?w1 @ [Other]\<rparr>"
    from yields(2) \<open>g1 s1 = Some (Yield v, s1')\<close> \<open>self_state w = s1\<close> \<open>other_state w = s2\<close> have
      step: "?Z ((Suspended i, Suspended j), w)
               = Some (Yield (v, u), ((Suspended (i + 1), Suspended (j + 1)), ?w2))"
      by (simp add: zip_next_def safe_iter_next_unbounded from_lambda_def on_self_def on_other_def)
    have "self_state ?w2 = s1'" "other_state ?w2 = s2'" by simp_all
    from yields.IH[OF yields(3) this, of "i + 1" "j + 1"] obtain fr w' where
      rest: "finite_source ?Z ((Suspended (i + 1), Suspended (j + 1)), ?w2) (zip xs ys') (fr, w')"
        "pull_log w' = pull_log ?w2 @ concat (replicate (min (length xs) (length ys')) [Self, Other])
                        @ (if length xs \<le> length ys' then [Self] else [Self, Other])"
        "if length xs \<le> length ys'
          then self_state w' = e1 \<and> finite_source g2 (other_state w') (drop (length xs) ys') e2
          else other_state w' = e2 \<and> finite_source g1 (self_state w') (drop (Suc (length ys')) xs) e1"
      by blast
    from finite_source.yields[OF step rest(1)] have
      "finite_source ?Z ((Suspended i, Suspended j), w) (zip (v # xs) ys) (fr, w')"
      using yields(1) by simp
    moreover from rest(2) have
      "pull_log w' = pull_log w @ concat (replicate (min (length (v # xs)) (length ys)) [Self, Other])
                        @ (if length (v # xs) \<le> length ys then [Self] else [Self, Other])"
      using yields(1) by simp
    moreover from rest(3) have
      "if length (v # xs) \<le> length ys
          then self_state w' = e1 \<and> finite_source g2 (other_state w') (drop (length (v # xs)) ys) e2
          else other_state w' = e2 \<and> finite_source g1 (self_state w') (drop (Suc (length ys)) (v # xs)) e1"
      using yields(1) by simp
    ultimately show ?thesis by blast
  qed
qed

text \<open>
  Claim C3. For two finite sources, \<^verbatim>\<open>self.zip(other)\<close> evaluated gives the pairs
  \<open>(self[i], other[i])\<close> for \<open>i\<close> below the smaller of the two lengths, and nothing else. The
  log of producer invocations is \<open>Self, Other\<close> once for every pair, followed by the pull or
  pulls that met the exhaustion: \<open>Self\<close> alone when \<open>self\<close> is exhausted, \<open>Self, Other\<close> when
  \<open>other\<close> is. In the second case the element pulled from \<open>self\<close> is dropped.
\<close>

theorem zip_evaluate:
  assumes "finite_source g1 s1 xs e1" and "finite_source g2 s2 ys e2"
  shows "\<exists>fr w'.
      (case zip_stream (from_lambda (on_self g1)) (from_lambda (on_other g2))
              \<lparr>self_state = s1, other_state = s2, pull_log = []\<rparr> of
         (zipped, st) \<Rightarrow> evaluate None zipped st) = Some (zip xs ys, (fr, w'))
    \<and> length (zip xs ys) = min (length xs) (length ys)
    \<and> (\<forall>i < min (length xs) (length ys). zip xs ys ! i = (xs ! i, ys ! i))
    \<and> pull_log w' = concat (replicate (min (length xs) (length ys)) [Self, Other])
                      @ (if length xs \<le> length ys then [Self] else [Self, Other])
    \<and> (if length xs \<le> length ys
        then self_state w' = e1 \<and> finite_source g2 (other_state w') (drop (length xs) ys) e2
        else other_state w' = e2 \<and> finite_source g1 (self_state w') (drop (Suc (length ys)) xs) e1)"
proof -
  let ?w = "\<lparr>self_state = s1, other_state = s2, pull_log = []\<rparr>"
  let ?Z = "zip_next (from_lambda (on_self g1)) (from_lambda (on_other g2))"
  have "self_state ?w = s1" "other_state ?w = s2" by simp_all
  from finite_source_zip[OF assms this, of 0 0] obtain fr w' where
    z: "finite_source ?Z ((Suspended 0, Suspended 0), ?w) (zip xs ys) (fr, w')"
       "pull_log w' = concat (replicate (min (length xs) (length ys)) [Self, Other])
                        @ (if length xs \<le> length ys then [Self] else [Self, Other])"
       "if length xs \<le> length ys
        then self_state w' = e1 \<and> finite_source g2 (other_state w') (drop (length xs) ys) e2
        else other_state w' = e2 \<and> finite_source g1 (self_state w') (drop (Suc (length ys)) xs) e1"
    by auto
  have "evaluate None (from_iterator ?Z) ((Suspended 0, Suspended 0), ?w) = Some (zip xs ys, (fr, w'))"
    using z(1) by (rule evaluate_unbounded) (simp add: from_iterator_def)
  then have "(case zip_stream (from_lambda (on_self g1)) (from_lambda (on_other g2)) ?w of
         (zipped, st) \<Rightarrow> evaluate None zipped st) = Some (zip xs ys, (fr, w'))"
    by (simp add: zip_stream_def safe_iter_new_def)
  with z(2,3) show ?thesis
    by (intro exI[of _ fr] exI[of _ w']) simp
qed

text \<open>Three elements zipped with one.\<close>

theorem zip_evaluate_witness:
  "finite_source list_next [1::int, 2, 3] [1, 2, 3] []
   \<and> finite_source list_next [10::int] [10] []
   \<and> (\<exists>fr w'.
         (case zip_stream (from_lambda (on_self list_next)) (from_lambda (on_other list_next))
                 \<lparr>self_state = [1::int, 2, 3], other_state = [10::int], pull_log = []\<rparr> of
            (zipped, st) \<Rightarrow> evaluate None zipped st) = Some ([(1, 10)], (fr, w'))
       \<and> (0::nat) < min (length [1::int, 2, 3]) (length [10::int])
       \<and> [(1::int, 10::int)] ! 0 = ([1, 2, 3] ! 0, [10] ! 0)
       \<and> pull_log w' = [Self, Other, Self, Other]
       \<and> other_state w' = []
       \<and> finite_source list_next (self_state w') [3] [])"
  using zip_evaluate [OF finite_source_list_next finite_source_list_next, of "[1::int, 2, 3]" "[10::int]"]
        finite_source_list_next [of "[1::int, 2, 3]"] finite_source_list_next [of "[10::int]"]
  by simp

section \<open>Laziness of the operators\<close>

lemma counted_step:
  "counted g (s, n) = Some (r, st) \<Longrightarrow> \<exists>s'. st = (s', Suc n) \<and> g s = Some (r, s')"
  by (auto simp: counted_def split: option.splits)

lemma filter_iterator_counts:
  assumes "filter_iterator p self it st = Some y"
  shows "self = from_lambda (counted g) \<longrightarrow> it \<noteq> Closed \<longrightarrow> snd st < snd (snd (snd y))"
proof (rule filter_iterator.raw_induct
    [where P = "\<lambda>p self it st y. self = from_lambda (counted g) \<longrightarrow> it \<noteq> Closed
                  \<longrightarrow> snd st < snd (snd (snd y))", OF _ assms])
  fix f and p :: "'a \<Rightarrow> bool" and self :: "('b \<times> nat, 'a) LazyStream" and it st y
  assume 1: "\<And>p self it st y. f p self it st = Some y \<Longrightarrow>
                self = from_lambda (counted g) \<longrightarrow> it \<noteq> Closed \<longrightarrow> snd st < snd (snd (snd y))"
     "(case safe_iter_next None self it st of None \<Rightarrow> None
       | Some (Yield v, it', s') \<Rightarrow>
           if p v then Some (Yield v, Suspended it', s') else f p self it' s'
       | Some (StopIteration, it', s') \<Rightarrow> Some (StopIteration, Closed, s')) = Some y"
  show "self = from_lambda (counted g) \<longrightarrow> it \<noteq> Closed \<longrightarrow> snd st < snd (snd (snd y))"
  proof (intro impI)
    assume self: "self = from_lambda (counted g)" and opn: "it \<noteq> Closed"
    then obtain i where it: "it = Suspended i" by (cases it) auto
    obtain s n where st: "st = (s, n)" by (cases st)
    show "snd st < snd (snd (snd y))"
    proof (cases "g s")
      case None
      with 1(2) self it st show ?thesis
        by (simp add: safe_iter_next_def from_lambda_def counted_def)
    next
      case (Some a)
      obtain r s' where a: "a = (r, s')" by (cases a)
      show ?thesis
      proof (cases r)
        case StopIteration
        with 1(2) self it st Some a show ?thesis
          by (auto simp: safe_iter_next_def from_lambda_def counted_def)
      next
        case (Yield v)
        show ?thesis
        proof (cases "p v")
          case True
          with 1(2) self it st Some a Yield show ?thesis
            by (auto simp: safe_iter_next_def from_lambda_def counted_def)
        next
          case False
          with 1(2) self it st Some a Yield
          have "f p self (Suspended (i + 1)) (s', Suc n) = Some y"
            by (auto simp: safe_iter_next_def from_lambda_def counted_def)
          from 1(1)[OF this] self st show ?thesis by simp
        qed
      qed
    qed
  qed
qed

text \<open>
  Claim C7. Building a stream with \<^verbatim>\<open>map\<close>, \<^verbatim>\<open>map_enumerate\<close>, \<^verbatim>\<open>filter\<close>, \<^verbatim>\<open>for_each\<close> or
  \<^verbatim>\<open>zip\<close> leaves the state of the underlying producer and the count of its invocations as they
  were. The count changes with the first pull of the new stream: whenever that pull returns,
  the producer has been invoked.
\<close>

theorem construction_pulls_nothing:
  "snd (map_stream f (from_lambda (counted g)) (s, n)) = (s, n)
   \<and> snd (snd (map_enumerate fi (from_lambda (counted g)) (s, n))) = (s, n)
   \<and> snd (snd (filter_stream p (from_lambda (counted g)) (s, n))) = (s, n)
   \<and> snd (snd (for_each h (from_lambda (counted g)) (s, n))) = (s, n)
   \<and> snd (snd (zip_stream (from_lambda (counted g)) other (s, n))) = (s, n)
   \<and> (\<forall>r st. (case map_stream f (from_lambda (counted g)) (s, n) of
                 (d, st0) \<Rightarrow> generator d st0) = Some (r, st) \<longrightarrow> snd st = Suc n)
   \<and> (\<forall>r st. (case map_enumerate fi (from_lambda (counted g)) (s, n) of
                 (d, st0) \<Rightarrow> generator d st0) = Some (r, st) \<longrightarrow> snd (snd st) = Suc n)
   \<and> (\<forall>r st. (case filter_stream p (from_lambda (counted g)) (s, n) of
                 (d, st0) \<Rightarrow> generator d st0) = Some (r, st) \<longrightarrow> n < snd (snd st))
   \<and> (\<forall>r st. (case for_each (\<lambda>v (s, n). (hs v s, n)) (from_lambda (counted g)) (s, n) of
                 (d, st0) \<Rightarrow> generator d st0) = Some (r, st) \<longrightarrow> snd (snd st) = Suc n)
   \<and> (\<forall>r st. (case zip_stream (from_lambda (counted g)) (from_lambda (counted g2)) (s, n) of
                 (d, st0) \<Rightarrow> generator d st0) = Some (r, st)
               \<longrightarrow> snd (snd st) = Suc n \<or> snd (snd st) = Suc (Suc n))"
proof -
  have zp: "\<forall>r st. (case zip_stream (from_lambda (counted g)) (from_lambda (counted g2)) (s, n) of
                 (d, st0) \<Rightarrow> generator d st0) = Some (r, st)
               \<longrightarrow> snd (snd st) = Suc n \<or> snd (snd st) = Suc (Suc n)"
    by (auto simp: zip_stream_def zip_next_def from_iterator_def safe_iter_next_def
        safe_iter_new_def from_lambda_def counted_def split: option.splits signal.splits)
  have filt: "\<forall>r st. (case filter_stream p (from_lambda (counted g)) (s, n) of
                 (d, st0) \<Rightarrow> generator d st0) = Some (r, st) \<longrightarrow> n < snd (snd st)"
    using filter_iterator_counts[of p "from_lambda (counted g)" "Suspended 0" "(s, n)" _ g]
    by (auto simp: filter_stream_def from_iterator_def filter_next_def safe_iter_new_def)
  have mp: "\<forall>r st. (case map_stream f (from_lambda (counted g)) (s, n) of
                 (d, st0) \<Rightarrow> generator d st0) = Some (r, st) \<longrightarrow> snd st = Suc n"
    by (auto simp: map_stream_def map_producer_def safe_next_def safe_iter_next_def safe_iter_new_def
        from_lambda_def counted_def split: option.splits signal.splits)
  have me: "\<forall>r st. (case map_enumerate fi (from_lambda (counted g)) (s, n) of
                 (d, st0) \<Rightarrow> generator d st0) = Some (r, st) \<longrightarrow> snd (snd st) = Suc n"
    by (auto simp: map_enumerate_def map_enumerate_next_def from_iterator_def safe_iter_next_def
        safe_iter_new_def from_lambda_def counted_def split: option.splits signal.splits)
  have fe: "\<forall>r st. (case for_each (\<lambda>v (s, n). (hs v s, n)) (from_lambda (counted g)) (s, n) of
                 (d, st0) \<Rightarrow> generator d st0) = Some (r, st) \<longrightarrow> snd (snd st) = Suc n"
    by (auto simp: for_each_def for_each_next_def from_iterator_def safe_iter_next_def
        safe_iter_new_def from_lambda_def counted_def split: option.splits signal.splits)
  from filt mp me fe zp show ?thesis
    by (simp add: map_stream_def map_enumerate_def filter_stream_def for_each_def zip_stream_def)
qed

text \<open>The five operators built over a list iterator, and the first pull of each.\<close>

theorem construction_pulls_nothing_witness:
  "snd (map_stream (\<lambda>x. x + 1) (from_lambda (counted list_next)) ([1::int, 2], 0)) = ([1, 2], 0)
   \<and> snd (snd (filter_stream (\<lambda>x. 1 < x) (from_lambda (counted list_next)) ([1::int, 2], 0))) = ([1, 2], 0)
   \<and> (case map_stream (\<lambda>x. x + 1) (from_lambda (counted list_next)) ([1::int, 2], 0) of
         (d, st0) \<Rightarrow> generator d st0) = Some (Yield 2, ([2], Suc 0))
   \<and> (case map_enumerate (\<lambda>i x. (i, x)) (from_lambda (counted list_next)) ([1::int, 2], 0) of
         (d, st0) \<Rightarrow> generator d st0)
        = Some (Yield (0, 1), (Suspended (1, Suspended 1), ([2], Suc 0)))
   \<and> (case filter_stream (\<lambda>x. 1 < x) (from_lambda (counted list_next)) ([1::int, 2], 0) of
         (d, st0) \<Rightarrow> generator d st0)
        = Some (Yield 2, (Suspended (Suspended 2), ([], Suc (Suc 0))))
   \<and> (case for_each (\<lambda>v (s, n). (v # s, n)) (from_lambda (counted list_next)) ([1::int, 2], 0) of
         (d, st0) \<Rightarrow> generator d st0)
        = Some (Yield 1, (Suspended (Suspended 1), ([1, 2], Suc 0)))
   \<and> (case zip_stream (from_lambda (counted list_next)) (from_lambda (counted list_next)) ([1::int, 2], 0) of
         (d, st0) \<Rightarrow> generator d st0)
        = Some (Yield (1, 2), ((Suspended 1, Suspended 1), ([], Suc (Suc 0))))"
  using construction_pulls_nothing
          [of "\<lambda>x. x + 1" list_next "[1::int, 2]" 0 "\<lambda>i x. (i, x)" "\<lambda>x. 1 < x"
              "\<lambda>v (s, n). (v # s, n)" "from_lambda (counted list_next)" "\<lambda>v s. v # s" list_next]
  by (simp add: map_stream_def map_producer_def safe_next_def map_enumerate_def
      map_enumerate_next_def filter_stream_def filter_next_def filter_iterator.simps
      for_each_def for_each_next_def zip_stream_def zip_next_def from_iterator_def
      from_lambda_def counted_def list_next_def safe_iter_next_def safe_iter_new_def)

section \<open>Pulls after exhaustion\<close>

lemma filter_iterator_stop:
  assumes "filter_iterator p self it s = Some y"
  shows "fst y = StopIteration \<longrightarrow> fst (snd y) = Closed"
proof (rule filter_iterator.raw_induct
    [where P = "\<lambda>p self it s y. fst y = StopIteration \<longrightarrow> fst (snd y) = Closed", OF _ assms])
  fix f and p :: "'a \<Rightarrow> bool" and self :: "('b, 'a) LazyStream" and it s y
  assume "\<And>p self it s y. f p self it s = Some y \<Longrightarrow> fst y = StopIteration \<longrightarrow> fst (snd y) = Closed"
    and "(case safe_iter_next None self it s of None \<Rightarrow> None
       | Some (Yield v, it', s') \<Rightarrow>
           if p v then Some (Yield v, Suspended it', s') else f p self it' s'
       | Some (StopIteration, it', s') \<Rightarrow> Some (StopIteration, Closed, s')) = Some y"
  then show "fst y = StopIteration \<longrightarrow> fst (snd y) = Closed"
    by (cases y) (fastforce split: option.splits signal.splits if_splits)
qed

lemma pull_times_fixed:
  "g st = Some (StopIteration, st) \<Longrightarrow> pull_times k g st = Some (replicate k StopIteration, st)"
  by (induction k) simp_all

lemma filter_next_stop:
  "filter_next p self st = Some (StopIteration, st') \<Longrightarrow> fst st' = Closed"
  using filter_iterator_stop[of p self _ "snd st" "(StopIteration, st')"]
  by (cases st) (auto simp: filter_next_def split: gen_frame.splits)

lemma for_each_next_stop:
  "for_each_next h self st = Some (StopIteration, st') \<Longrightarrow> fst st' = Closed"
  by (cases st) (auto simp: for_each_next_def split: gen_frame.splits option.splits signal.splits)

lemma map_enumerate_next_stop:
  "map_enumerate_next fi self st = Some (StopIteration, st') \<Longrightarrow> fst st' = Closed"
  by (cases st) (auto simp: map_enumerate_next_def split: gen_frame.splits option.splits signal.splits)

lemma zip_next_stop:
  "zip_next self other st = Some (StopIteration, st') \<Longrightarrow>
   fst (fst st') = Closed \<or> snd (fst st') = Closed"
  by (cases st) (auto simp: zip_next_def safe_iter_next_def
      split: gen_frame.splits option.splits signal.splits)

text \<open>
  Claim C10, amended. For a stream built by \<^verbatim>\<open>filter\<close>, \<^verbatim>\<open>for_each\<close> or \<^verbatim>\<open>map_enumerate\<close>: once
  its producer has signalled exhaustion, every later pull signals exhaustion again and leaves
  the whole state, the upstream producer's included, as it is. For a stream built by \<^verbatim>\<open>zip\<close>:
  once its producer has signalled exhaustion, one of the two generators is closed. If it is
  the one over \<open>self\<close>, every later pull signals exhaustion and changes nothing. Otherwise a
  later pull invokes the producer of \<open>self\<close> once, never the producer of \<open>other\<close>, and signals
  exhaustion when that invocation returns, whatever it returned.
\<close>

theorem exhaustion_repeats:
  "(generator (fst (filter_stream p self s0)) st = Some (StopIteration, st') \<longrightarrow>
      pull_times k (generator (fst (filter_stream p self s0))) st'
        = Some (replicate k StopIteration, st'))
   \<and> (generator (fst (for_each h self s0)) st = Some (StopIteration, st') \<longrightarrow>
      pull_times k (generator (fst (for_each h self s0))) st'
        = Some (replicate k StopIteration, st'))
   \<and> (generator (fst (map_enumerate fi self s0)) ste = Some (StopIteration, ste') \<longrightarrow>
      pull_times k (generator (fst (map_enumerate fi self s0))) ste'
        = Some (replicate k StopIteration, ste'))
   \<and> (generator (fst (zip_stream self other s0)) stz = Some (StopIteration, ((it1, it2), w)) \<longrightarrow>
        (it1 = Closed \<or> it2 = Closed)
      \<and> (it1 = Closed \<longrightarrow>
           pull_times k (generator (fst (zip_stream self other s0))) ((it1, it2), w)
             = Some (replicate k StopIteration, ((it1, it2), w)))
      \<and> (\<forall>i. it1 = Suspended i \<longrightarrow>
           generator (fst (zip_stream self other s0)) ((it1, it2), w)
             = (case generator self w of
                  None \<Rightarrow> None
                | Some (Yield v, w') \<Rightarrow> Some (StopIteration, ((Suspended (i + 1), Closed), w'))
                | Some (StopIteration, w') \<Rightarrow> Some (StopIteration, ((Closed, Closed), w')))))"
proof -
  have a: "filter_next p self st = Some (StopIteration, st') \<longrightarrow>
      pull_times k (filter_next p self) st' = Some (replicate k StopIteration, st')"
  proof
    assume "filter_next p self st = Some (StopIteration, st')"
    from filter_next_stop[OF this] have "filter_next p self st' = Some (StopIteration, st')"
      by (cases st') (simp add: filter_next_def)
    then show "pull_times k (filter_next p self) st' = Some (replicate k StopIteration, st')"
      by (rule pull_times_fixed)
  qed
  have b: "for_each_next h self st = Some (StopIteration, st') \<longrightarrow>
      pull_times k (for_each_next h self) st' = Some (replicate k StopIteration, st')"
  proof
    assume "for_each_next h self st = Some (StopIteration, st')"
    from for_each_next_stop[OF this] have "for_each_next h self st' = Some (StopIteration, st')"
      by (cases st') (simp add: for_each_next_def)
    then show "pull_times k (for_each_next h self) st' = Some (replicate k StopIteration, st')"
      by (rule pull_times_fixed)
  qed
  have c: "map_enumerate_next fi self ste = Some (StopIteration, ste') \<longrightarrow>
      pull_times k (map_enumerate_next fi self) ste' = Some (replicate k StopIteration, ste')"
  proof
    assume "map_enumerate_next fi self ste = Some (StopIteration, ste')"
    from map_enumerate_next_stop[OF this]
    have "map_enumerate_next fi self ste' = Some (StopIteration, ste')"
      by (cases ste') (simp add: map_enumerate_next_def)
    then show "pull_times k (map_enumerate_next fi self) ste' = Some (replicate k StopIteration, ste')"
      by (rule pull_times_fixed)
  qed
  have d: "zip_next self other stz = Some (StopIteration, ((it1, it2), w)) \<longrightarrow>
        (it1 = Closed \<or> it2 = Closed)
      \<and> (it1 = Closed \<longrightarrow>
           pull_times k (zip_next self other) ((it1, it2), w)
             = Some (replicate k StopIteration, ((it1, it2), w)))
      \<and> (\<forall>i. it1 = Suspended i \<longrightarrow>
           zip_next self other ((it1, it2), w)
             = (case generator self w of
                  None \<Rightarrow> None
                | Some (Yield v, w') \<Rightarrow> Some (StopIteration, ((Suspended (i + 1), Closed), w'))
                | Some (StopIteration, w') \<Rightarrow> Some (StopIteration, ((Closed, Closed), w'))))"
  proof (intro impI conjI allI)
    assume z: "zip_next self other stz = Some (StopIteration, ((it1, it2), w))"
    from zip_next_stop[OF z] show one: "it1 = Closed \<or> it2 = Closed" by simp
    {
      assume "it1 = Closed"
      then have "zip_next self other ((it1, it2), w) = Some (StopIteration, ((it1, it2), w))"
        by (simp add: zip_next_def safe_iter_next_def)
      then show "pull_times k (zip_next self other) ((it1, it2), w)
             = Some (replicate k StopIteration, ((it1, it2), w))"
        by (rule pull_times_fixed)
    }
    fix i
    assume "it1 = Suspended i"
    with one have "it2 = Closed" by simp
    with \<open>it1 = Suspended i\<close> show "zip_next self other ((it1, it2), w)
             = (case generator self w of
                  None \<Rightarrow> None
                | Some (Yield v, w') \<Rightarrow> Some (StopIteration, ((Suspended (i + 1), Closed), w'))
                | Some (StopIteration, w') \<Rightarrow> Some (StopIteration, ((Closed, Closed), w')))"
      by (simp add: zip_next_def safe_iter_next_def split: option.splits signal.splits)
  qed
  from a b c d show ?thesis
    by (simp add: filter_stream_def for_each_def map_enumerate_def zip_stream_def from_iterator_def)
qed

text \<open>
  The streams over an empty list, pulled twice after their exhaustion, and \<^verbatim>\<open>zip\<close> of two
  elements with none, pulled once more after its exhaustion.
\<close>

theorem exhaustion_repeats_witness:
  "generator (fst (filter_stream (\<lambda>x. True) (from_lambda (on_self list_next)) 
        \<lparr>self_state = ([]::int list), other_state = ([]::int list), pull_log = []\<rparr>))
       (Suspended (Suspended 0), \<lparr>self_state = ([]::int list), other_state = [10::int], pull_log = []\<rparr>)
     = Some (StopIteration, (Closed, \<lparr>self_state = [], other_state = [10], pull_log = [Self]\<rparr>))
   \<and> pull_times 2 (generator (fst (filter_stream (\<lambda>x. True) (from_lambda (on_self list_next)) 
        \<lparr>self_state = ([]::int list), other_state = ([]::int list), pull_log = []\<rparr>)))
       (Closed, \<lparr>self_state = ([]::int list), other_state = [10::int], pull_log = [Self]\<rparr>)
     = Some ([StopIteration, StopIteration],
             (Closed, \<lparr>self_state = [], other_state = [10], pull_log = [Self]\<rparr>))
   \<and> pull_times 2 (generator (fst (for_each (\<lambda>v w. w) (from_lambda (on_self list_next)) 
        \<lparr>self_state = ([]::int list), other_state = ([]::int list), pull_log = []\<rparr>)))
       (Closed, \<lparr>self_state = ([]::int list), other_state = [10::int], pull_log = [Self]\<rparr>)
     = Some ([StopIteration, StopIteration],
             (Closed, \<lparr>self_state = [], other_state = [10], pull_log = [Self]\<rparr>))
   \<and> pull_times 2 (generator (fst (map_enumerate (\<lambda>i x. (i, x)) (from_lambda (on_self list_next)) 
        \<lparr>self_state = ([]::int list), other_state = ([]::int list), pull_log = []\<rparr>)))
       (Closed, \<lparr>self_state = ([]::int list), other_state = [10::int], pull_log = [Self]\<rparr>)
     = Some ([StopIteration, StopIteration],
             (Closed, \<lparr>self_state = [], other_state = [10], pull_log = [Self]\<rparr>))
   \<and> pull_times 2 (generator (fst (zip_stream (from_lambda (on_self list_next))
                                    (from_lambda (on_other list_next)) 
        \<lparr>self_state = ([]::int list), other_state = ([]::int list), pull_log = []\<rparr>)))
       ((Closed, Suspended 0), \<lparr>self_state = ([]::int list), other_state = [10::int], pull_log = [Self]\<rparr>)
     = Some ([StopIteration, StopIteration],
             ((Closed, Suspended 0), \<lparr>self_state = [], other_state = [10], pull_log = [Self]\<rparr>))
   \<and> generator (fst (zip_stream (from_lambda (on_self list_next)) (from_lambda (on_other list_next)) 
        \<lparr>self_state = ([]::int list), other_state = ([]::int list), pull_log = []\<rparr>))
       ((Suspended 0, Suspended 0), \<lparr>self_state = [1::int, 2], other_state = ([]::int list), pull_log = []\<rparr>)
     = Some (StopIteration,
             ((Suspended 1, Closed), \<lparr>self_state = [2], other_state = [], pull_log = [Self, Other]\<rparr>))
   \<and> generator (fst (zip_stream (from_lambda (on_self list_next)) (from_lambda (on_other list_next)) 
        \<lparr>self_state = ([]::int list), other_state = ([]::int list), pull_log = []\<rparr>))
       ((Suspended 1, Closed), \<lparr>self_state = [2::int], other_state = ([]::int list), pull_log = [Self, Other]\<rparr>)
     = Some (StopIteration,
             ((Suspended 2, Closed), \<lparr>self_state = [], other_state = [], pull_log = [Self, Other, Self]\<rparr>))"
  using exhaustion_repeats
    [where p = "\<lambda>x. True" and self = "from_lambda (on_self list_next)" and ?s0.0 = "
        \<lparr>self_state = ([]::int list), other_state = ([]::int list), pull_log = []\<rparr>"
       and st = "(Suspended (Suspended 0), \<lparr>self_state = ([]::int list), other_state = [10::int], pull_log = []\<rparr>)"
       and st' = "(Closed, \<lparr>self_state = ([]::int list), other_state = [10::int], pull_log = [Self]\<rparr>)"
       and k = 2 and h = "\<lambda>v w. w" and fi = "\<lambda>i x. (i, x)"
       and ste = "(Suspended (0, Suspended 0), \<lparr>self_state = ([]::int list), other_state = [10::int], pull_log = []\<rparr>)"
       and ste' = "(Closed, \<lparr>self_state = ([]::int list), other_state = [10::int], pull_log = [Self]\<rparr>)"
       and other = "from_lambda (on_other list_next)"
       and stz = "((Suspended 0, Suspended 0), \<lparr>self_state = ([]::int list), other_state = [10::int], pull_log = []\<rparr>)"
       and ?it1.0 = Closed and ?it2.0 = "Suspended 0"
       and w = "\<lparr>self_state = ([]::int list), other_state = [10::int], pull_log = [Self]\<rparr>"]
    exhaustion_repeats
    [where self = "from_lambda (on_self list_next)" and ?s0.0 = "
        \<lparr>self_state = ([]::int list), other_state = ([]::int list), pull_log = []\<rparr>"
       and other = "from_lambda (on_other list_next)"
       and stz = "((Suspended 0, Suspended 0), \<lparr>self_state = [1::int, 2], other_state = ([]::int list), pull_log = []\<rparr>)"
       and ?it1.0 = "Suspended 1" and ?it2.0 = Closed
       and w = "\<lparr>self_state = [2::int], other_state = ([]::int list), pull_log = [Self, Other]\<rparr>"]
  by (simp add: filter_stream_def filter_next_def filter_iterator.simps for_each_def
      for_each_next_def map_enumerate_def map_enumerate_next_def zip_stream_def zip_next_def
      from_iterator_def from_lambda_def on_self_def on_other_def list_next_def
      safe_iter_next_def eval_nat_numeral)

text \<open>
  Claim C10 as stated fails for \<^verbatim>\<open>zip\<close>. Three elements zipped with one: the second pull
  signals exhaustion, and the third pull invokes the producer of \<open>self\<close> again, which takes
  the element 3 from the source.
\<close>

theorem exhaustion_repeats_counterexample:
  "pull_times 2
     (generator (fst (zip_stream (from_lambda (on_self list_next)) (from_lambda (on_other list_next))
        \<lparr>self_state = [1::int, 2, 3], other_state = [10::int], pull_log = []\<rparr>)))
     (snd (zip_stream (from_lambda (on_self list_next)) (from_lambda (on_other list_next))
        \<lparr>self_state = [1::int, 2, 3], other_state = [10::int], pull_log = []\<rparr>))
    = Some ([Yield (1, 10), StopIteration],
            ((Suspended 2, Closed),
             \<lparr>self_state = [3], other_state = [], pull_log = [Self, Other, Self, Other]\<rparr>))
   \<and> pull_times 3
     (generator (fst (zip_stream (from_lambda (on_self list_next)) (from_lambda (on_other list_next))
        \<lparr>self_state = [1::int, 2, 3], other_state = [10::int], pull_log = []\<rparr>)))
     (snd (zip_stream (from_lambda (on_self list_next)) (from_lambda (on_other list_next))
        \<lparr>self_state = [1::int, 2, 3], other_state = [10::int], pull_log = []\<rparr>))
    = Some ([Yield (1, 10), StopIteration, StopIteration],
            ((Suspended 3, Closed),
             \<lparr>self_state = [], other_state = [], pull_log = [Self, Other, Self, Other, Self]\<rparr>))"
  by (simp add: zip_stream_def zip_next_def from_iterator_def from_lambda_def on_self_def
      on_other_def list_next_def safe_iter_next_def safe_iter_new_def eval_nat_numeral)

section \<open>Parallel evaluation: submission order\<close>

lemma pool_run_dom:
  "pool_run g js res0 s = Some (res, s') \<Longrightarrow> dom res = dom res0 \<union> set js"
proof (induction js arbitrary: res0 s)
  case Nil
  then show ?case by simp
next
  case (Cons j js)
  then show ?case
    by (cases "g s") (auto split: prod.splits)
qed

lemma pool_run_counted:
  "pool_run (counted g) js res0 (s, n) = Some (res, (s', n')) \<Longrightarrow> n' = n + length js"
proof (induction js arbitrary: res0 s n)
  case Nil
  then show ?case by simp
next
  case (Cons j js)
  show ?case
  proof (cases "counted g (s, n)")
    case None
    with Cons.prems show ?thesis by simp
  next
    case (Some a)
    obtain r st where a: "a = (r, st)" by (cases a)
    with Some counted_step[of g s n r st] obtain s1 where st: "st = (s1, Suc n)" by auto
    with Cons.prems Some a
    have "pool_run (counted g) js (res0(j \<mapsto> r)) (s1, Suc n) = Some (res, (s', n'))"
      by simp
    from Cons.IH[OF this] show ?thesis by simp
  qed
qed

lemma collect_prefix:
  "\<forall>j\<in>set js. res j \<noteq> None \<Longrightarrow>
   \<exists>more. collect res js out = Some (out @ more)
      \<and> map Yield more = takeWhile (\<lambda>r. r \<noteq> StopIteration) (map (\<lambda>j. the (res j)) js)"
proof (induction js arbitrary: out)
  case Nil
  then show ?case by simp
next
  case (Cons j js)
  then obtain r where r: "res j = Some r" by auto
  show ?case
  proof (cases r)
    case StopIteration
    with r show ?thesis by simp
  next
    case (Yield v)
    from Cons.IH[of "out @ [v]"] Cons.prems obtain more where
      "collect res js (out @ [v]) = Some ((out @ [v]) @ more)"
      "map Yield more = takeWhile (\<lambda>r. r \<noteq> StopIteration) (map (\<lambda>j. the (res j)) js)"
      by auto
    with r Yield show ?thesis by simp
  qed
qed

lemma pool_run_list_in_order:
  "\<exists>res. pool_run (counted list_next) [a..<a + m] res0 (xs, n) = Some (res, (drop m xs, n + m))
     \<and> (\<forall>j. res j = (if a \<le> j \<and> j < a + m
                      then Some (if j - a < length xs then Yield (xs ! (j - a)) else StopIteration)
                      else res0 j))"
proof (induction m arbitrary: a xs res0 n)
  case 0
  have "pool_run (counted list_next) [a..<a + 0] res0 (xs, n) = Some (res0, (drop 0 xs, n + 0))"
    by simp
  then show ?case by auto
next
  case (Suc m)
  define r0 where "r0 = (case xs of [] \<Rightarrow> StopIteration | x # _ \<Rightarrow> Yield x)"
  have upt: "[a..<a + Suc m] = a # [Suc a..<Suc a + m]"
    by (simp add: upt_conv_Cons)
  have step: "counted list_next (xs, n) = Some (r0, (tl xs, Suc n))"
    by (simp add: counted_def list_next_def r0_def split: list.splits)
  from Suc[where a = "Suc a" and xs = "tl xs" and ?res0.0 = "res0(a \<mapsto> r0)" and n = "Suc n"]
  obtain res where
    res: "pool_run (counted list_next) [Suc a..<Suc a + m] (res0(a \<mapsto> r0)) (tl xs, Suc n)
         = Some (res, (drop m (tl xs), Suc n + m))"
      "\<forall>j. res j = (if Suc a \<le> j \<and> j < Suc a + m
                    then Some (if j - Suc a < length (tl xs) then Yield (tl xs ! (j - Suc a))
                               else StopIteration)
                    else (res0(a \<mapsto> r0)) j)"
    by blast
  have run: "pool_run (counted list_next) [a..<a + Suc m] res0 (xs, n)
               = Some (res, (drop (Suc m) xs, n + Suc m))"
    unfolding upt using step res(1) by (simp add: drop_Suc)
  have "res j = (if a \<le> j \<and> j < a + Suc m
                 then Some (if j - a < length xs then Yield (xs ! (j - a)) else StopIteration)
                 else res0 j)" for j
  proof (cases "j = a")
    case True
    with res(2) show ?thesis
      by (cases xs) (simp_all add: r0_def)
  next
    case False
    show ?thesis
    proof (cases "Suc a \<le> j")
      case True
      then have d: "j - a = Suc (j - Suc a)" by arith
      show ?thesis
      proof (cases xs)
        case Nil
        with True res(2) show ?thesis by simp
      next
        case (Cons x rest)
        with True res(2) d show ?thesis by simp
      qed
    next
      case False
      with \<open>j \<noteq> a\<close> res(2) show ?thesis by simp
    qed
  qed
  with run show ?case by blast
qed

lemma collect_list_in_order:
  "\<forall>j. a \<le> j \<and> j < a + m \<longrightarrow>
       res j = Some (if j - a < length xs then Yield (xs ! (j - a)) else StopIteration) \<Longrightarrow>
   collect res [a..<a + m] out = Some (out @ take m xs)"
proof (induction m arbitrary: a xs out)
  case 0
  then show ?case by simp
next
  case (Suc m)
  have upt: "[a..<a + Suc m] = a # [Suc a..<Suc a + m]"
    by (simp add: upt_conv_Cons)
  from Suc.prems have ra: "res a = Some (if 0 < length xs then Yield (xs ! 0) else StopIteration)"
    by simp
  show ?case
  proof (cases xs)
    case Nil
    with ra upt show ?thesis by simp
  next
    case (Cons x rest)
    have "\<forall>j. Suc a \<le> j \<and> j < Suc a + m \<longrightarrow>
       res j = Some (if j - Suc a < length rest then Yield (rest ! (j - Suc a)) else StopIteration)"
    proof (intro allI impI)
      fix j assume j: "Suc a \<le> j \<and> j < Suc a + m"
      then have "j - a = Suc (j - Suc a)" by arith
      with j Suc.prems Cons show
        "res j = Some (if j - Suc a < length rest then Yield (rest ! (j - Suc a)) else StopIteration)"
        by simp
    qed
    from Suc.IH[OF this, of "out @ [x]"] ra Cons upt show ?thesis by simp
  qed
qed

text \<open>
  Claim C2, amended. With an executor that runs each of the \<open>k\<close> submitted invocations once,
  in whatever order, \<^verbatim>\<open>par_evaluate(k, pool)\<close> invokes the producer exactly \<open>k\<close> times and returns
  the values of the handles in submission order up to the first handle that holds the
  exhaustion signal, that handle and all later ones left out. With an executor that runs the
  invocations in submission order, a list iterator over \<open>xs\<close> gives the first \<open>k\<close> elements of
  \<open>xs\<close>: the elements 0, 1, 2 and the limit 5 give 0, 1, 2.
\<close>

theorem par_evaluate_submission_order:
  "(distinct (executor (nat limit)) \<and> set (executor (nat limit)) = {..<nat limit}
      \<and> pool_run (counted g) (executor (nat limit)) Map.empty (s, n) = Some (res, (s', n'))
    \<longrightarrow> (\<exists>output. par_evaluate limit executor (from_lambda (counted g)) (s, n)
                      = Some (output, (s', n'))
           \<and> map Yield output
               = takeWhile (\<lambda>r. r \<noteq> StopIteration) (map (\<lambda>j. the (res j)) [0..<nat limit])
           \<and> n' = n + nat limit))
   \<and> par_evaluate limit in_order (from_lambda (counted list_next)) (xs, n)
       = Some (take (nat limit) xs, (drop (nat limit) xs, n + nat limit))"
proof (intro conjI impI)
  assume a: "distinct (executor (nat limit)) \<and> set (executor (nat limit)) = {..<nat limit}
      \<and> pool_run (counted g) (executor (nat limit)) Map.empty (s, n) = Some (res, (s', n'))"
  then have run: "pool_run (counted g) (executor (nat limit)) Map.empty (s, n) = Some (res, (s', n'))"
    by simp
  from a have d: "distinct (executor (nat limit))"
    and st: "set (executor (nat limit)) = {..<nat limit}"
    by simp_all
  from distinct_card[OF d] have len: "length (executor (nat limit)) = nat limit"
    unfolding st by simp
  from pool_run_dom[OF run] a have "dom res = {..<nat limit}" by simp
  then have "\<forall>j\<in>set [0..<nat limit]. res j \<noteq> None" by auto
  from collect_prefix[OF this, of "[]"] obtain outp where
    out: "collect res [0..<nat limit] [] = Some outp"
      "map Yield outp
         = takeWhile (\<lambda>r. r \<noteq> StopIteration) (map (\<lambda>j. the (res j)) [0..<nat limit])"
    by auto
  from run out(1) have "par_evaluate limit executor (from_lambda (counted g)) (s, n)
                      = Some (outp, (s', n'))"
    by (simp add: par_evaluate_def from_lambda_def)
  moreover from pool_run_counted[OF run] len have "n' = n + nat limit" by simp
  ultimately show "\<exists>outp. par_evaluate limit executor (from_lambda (counted g)) (s, n)
                      = Some (outp, (s', n'))
           \<and> map Yield outp
               = takeWhile (\<lambda>r. r \<noteq> StopIteration) (map (\<lambda>j. the (res j)) [0..<nat limit])
           \<and> n' = n + nat limit"
    using out(2) by blast
next
  from pool_run_list_in_order[of 0 "nat limit" Map.empty xs n] obtain res where
    res: "pool_run (counted list_next) [0..<nat limit] Map.empty (xs, n)
            = Some (res, (drop (nat limit) xs, n + nat limit))"
      "\<forall>j. res j = (if 0 \<le> j \<and> j < 0 + nat limit
                     then Some (if j - 0 < length xs then Yield (xs ! (j - 0)) else StopIteration)
                     else Map.empty j)"
    by auto
  from res(2) have "\<forall>j. 0 \<le> j \<and> j < 0 + nat limit \<longrightarrow>
       res j = Some (if j - 0 < length xs then Yield (xs ! (j - 0)) else StopIteration)"
    by simp
  from collect_list_in_order[OF this, of "[]"]
  have "collect res [0..<nat limit] [] = Some (take (nat limit) xs)" by simp
  with res(1) show "par_evaluate limit in_order (from_lambda (counted list_next)) (xs, n)
       = Some (take (nat limit) xs, (drop (nat limit) xs, n + nat limit))"
    by (simp add: par_evaluate_def in_order_def from_lambda_def)
qed

lemma second_first_5: "second_first 5 = [1, 0, 2, 3, 4]"
  by (simp add: second_first_def upt_rec)

text \<open>
  The elements 0, 1, 2 with the limit 5: once with the second invocation run first, once in
  submission order.
\<close>

theorem par_evaluate_submission_order_witness:
  "distinct (second_first (nat 5)) \<and> set (second_first (nat 5)) = {..<nat 5}
   \<and> pool_run (counted list_next) (second_first (nat 5)) Map.empty ([0::int, 1, 2], 0)
       = Some ([1 \<mapsto> Yield 0, 0 \<mapsto> Yield 1, 2 \<mapsto> Yield 2, 3 \<mapsto> StopIteration, 4 \<mapsto> StopIteration],
               ([], 5))
   \<and> par_evaluate 5 second_first (from_lambda (counted list_next)) ([0::int, 1, 2], 0)
       = Some ([1, 0, 2], ([], 5))
   \<and> par_evaluate 5 in_order (from_lambda (counted list_next)) ([0::int, 1, 2], 0)
       = Some ([0, 1, 2], ([], 5))"
proof -
  have five: "nat 5 = 5" by simp
  have h1: "distinct (second_first (nat 5))"
    by (simp add: five second_first_5)
  have h2: "set (second_first (nat 5)) = {..<nat 5}"
    by (auto simp: five second_first_5)
  have h3: "pool_run (counted list_next) (second_first (nat 5)) Map.empty ([0::int, 1, 2], 0)
       = Some ([1 \<mapsto> Yield 0, 0 \<mapsto> Yield 1, 2 \<mapsto> Yield 2, 3 \<mapsto> StopIteration, 4 \<mapsto> StopIteration],
               ([], 5))"
    by (simp add: five second_first_5 counted_def list_next_def)
  from par_evaluate_submission_order
         [where limit = 5 and executor = second_first and g = list_next
            and s = "[0::int, 1, 2]" and n = 0 and s' = "[]" and n' = 5 and xs = "[0::int, 1, 2]"
            and res = "[1 \<mapsto> Yield 0, 0 \<mapsto> Yield 1, 2 \<mapsto> Yield 2, 3 \<mapsto> StopIteration, 4 \<mapsto> StopIteration]"]
       h1 h2 h3
  obtain outp where
    o: "par_evaluate 5 second_first (from_lambda (counted list_next)) ([0::int, 1, 2], 0)
          = Some (outp, ([], 5))"
       "map Yield outp
          = takeWhile (\<lambda>r. r \<noteq> StopIteration)
              (map (\<lambda>j. the ([1 \<mapsto> Yield (0::int), 0 \<mapsto> Yield 1, 2 \<mapsto> Yield 2,
                                3 \<mapsto> StopIteration, 4 \<mapsto> StopIteration] j)) [0..<nat 5])"
     and i: "par_evaluate 5 in_order (from_lambda (counted list_next)) ([0::int, 1, 2], 0)
          = Some ([0, 1, 2], ([], 5))"
    by auto
  have "[0..<nat 5] = [0, 1, 2, 3, 4]"
    by (simp add: five upt_rec)
  with o(2) have "map Yield outp = [Yield 1, Yield 0, Yield 2]"
    by simp
  then have "outp = [1, 0, 2]"
    by auto
  with o(1) i h1 h2 h3 show ?thesis by simp
qed

text \<open>
  Claim C2 as stated has the result 0, 1, 2 whatever the order of the invocations. When the
  second invocation reaches the producer first, the first handle holds 1 and the second 0.
\<close>

theorem par_evaluate_order_counterexample:
  "par_evaluate 5 second_first (from_iterator list_next) [0::int, 1, 2] = Some ([1, 0, 2], [])
   \<and> [1::int, 0, 2] \<noteq> [0, 1, 2]"
proof -
  have u: "[0..<nat 5] = [0, 1, 2, 3, 4]"
    by (simp add: upt_rec)
  have e: "second_first (length [0::nat, 1, 2, 3, 4]) = [1, 0, 2, 3, 4]"
    by (simp add: second_first_def upt_rec)
  show ?thesis
    unfolding par_evaluate_def u Let_def e
    by (simp add: from_iterator_def list_next_def)
qed

section \<open>Reduce: the fold and the copy of the initial accumulator\<close>












end
